theory Spec2Isabelle
  imports Complex_Main
begin

section \<open>The search and filter bar (SearchFilter.tsx)\<close>

text \<open>
  The component keeps two pieces of React state: the flag \<open>isExpanded\<close> and the six
  strings of \<open>filterValues\<close>. Its only output channel is the callback \<open>onFilterChange\<close>,
  which receives a \<open>Record<string, string>\<close>. A handler is modelled as a function from
  the state before the event to the state after it, paired with the arguments of the
  callback invocations it makes, in order.
\<close>

record FilterValues =
  search :: string
  fileType :: string
  sizeMin :: string
  sizeMax :: string
  uploadedFrom :: string
  uploadedTo :: string

type_synonym js_record = "string \<rightharpoonup> string"

record SearchFilter =
  isExpanded :: bool
  filterValues :: FilterValues

text \<open>The initial state of the two \<open>useState\<close> hooks.\<close>

definition initial_SearchFilter :: SearchFilter where
  "initial_SearchFilter =
     \<lparr>isExpanded = False,
      filterValues = \<lparr>search = [], fileType = [], sizeMin = [], sizeMax = [],
                      uploadedFrom = [], uploadedTo = []\<rparr>\<rparr>"

text \<open>
  \<open>Object.entries(filterValues)\<close>: the own properties of the state object as key and
  value pairs, in the order the object literal creates them.
\<close>

definition Object_entries :: "FilterValues \<Rightarrow> (string \<times> string) list" where
  "Object_entries fv =
     [(''search'', search fv), (''fileType'', fileType fv), (''sizeMin'', sizeMin fv),
      (''sizeMax'', sizeMax fv), (''uploadedFrom'', uploadedFrom fv),
      (''uploadedTo'', uploadedTo fv)]"

text \<open>
  The reducer of \<open>applyFilters\<close>: \<open>if (value) acc[key] = value; return acc\<close>. A string is
  truthy exactly when it is not empty.
\<close>

definition reducer :: "js_record \<Rightarrow> string \<times> string \<Rightarrow> js_record" where
  "reducer acc kv = (case kv of (key, value) \<Rightarrow> if value \<noteq> [] then acc(key \<mapsto> value) else acc)"

definition applyFilters :: "SearchFilter \<Rightarrow> SearchFilter \<times> js_record list" where
  "applyFilters st =
     (let filters = foldl reducer Map.empty (Object_entries (filterValues st))
      in (st, [filters]))"

definition clearFilters :: "SearchFilter \<Rightarrow> SearchFilter \<times> js_record list" where
  "clearFilters st =
     (st\<lparr>filterValues := \<lparr>search = [], fileType = [], sizeMin = [], sizeMax = [],
                           uploadedFrom = [], uploadedTo = []\<rparr>\<rparr>,
      [Map.empty])"

section \<open>The statistics widget (StorageStats.tsx)\<close>

text \<open>
  The interface \<open>StorageStatistics\<close> types the object the widget receives from the
  statistics query. It is modelled by its property declarations, in source order, each
  with its declared type.
\<close>

datatype ts_type = TNumber | TString

definition StorageStatistics :: "(string \<times> ts_type) list" where
  "StorageStatistics =
     [(''total_files'', TNumber), (''unique_files'', TNumber), (''duplicate_files'', TNumber),
      (''total_size'', TNumber), (''actual_size'', TNumber), (''storage_saved'', TNumber),
      (''last_updated'', TString)]"

text \<open>
  The properties of \<open>stats\<close> that the widget reads when it renders, in the order of
  the markup: two counters, two sizes passed to \<open>formatBytes\<close>, and the time stamp.
\<close>

definition StorageStats_reads :: "string list" where
  "StorageStats_reads =
     [''total_files'', ''unique_files'', ''total_size'', ''storage_saved'', ''last_updated'']"

text \<open>
  The six fields of the derived statistics record as the data model of the
  specification lists them; kept apart from the interface above for comparison.
\<close>

definition data_model_fields :: "string list" where
  "data_model_fields =
     [''total_files'', ''unique_files'', ''duplicate_files'',
      ''total_size'', ''actual_size'', ''storage_saved'']"

subsection \<open>formatBytes\<close>

text \<open>
  A JavaScript number is a double. A finite double is modelled by its exact value, a
  rational; \<open>fl\<close> rounds a rational to the nearest double, ties to even, with a
  significand of 53 bits (overflow and subnormal numbers do not occur in \<open>formatBytes\<close>
  on a byte count and are left out). \<open>bits n\<close> is the length of \<open>n\<close> in binary and
  \<open>binade x\<close>, for positive \<open>x\<close>, the exponent \<open>e\<close> with \<open>2^e \<le> x < 2^(e+1)\<close>.
\<close>

type_synonym number = rat

function bits :: "int \<Rightarrow> int" where
  "bits n = (if n \<le> 0 then 0 else bits (n div 2) + 1)"
  by pat_completeness auto
termination
  by (relation "measure nat") auto

declare bits.simps [simp del]

definition pow2 :: "int \<Rightarrow> rat" where
  "pow2 e = (if 0 \<le> e then 2 ^ nat e else 1 / 2 ^ nat (- e))"

definition binade :: "rat \<Rightarrow> int" where
  "binade x =
     (if 1 \<le> x then bits \<lfloor>x\<rfloor> - 1 else - bits (\<lceil>1 / x\<rceil> - 1))"

definition round_half_even :: "rat \<Rightarrow> int" where
  "round_half_even x =
     (let f = \<lfloor>x\<rfloor>; d = x - of_int f
      in if d < 1 / 2 then f else if 1 / 2 < d then f + 1 else if even f then f else f + 1)"

definition fl :: "rat \<Rightarrow> number" where
  "fl x =
     (if x = 0 then 0
      else let e = binade \<bar>x\<bar>; m = round_half_even (\<bar>x\<bar> * pow2 (52 - e))
           in sgn x * of_int m * pow2 (e - 52))"

text \<open>
  What the language leaves to the implementation, or defines by a long algorithm, is a
  parameter of the model: \<open>Math.log\<close>, which is implementation-approximated, and the
  conversion of a number to a string in \<open>number + ' '\<close>.
\<close>

record platform =
  Math_log :: "number \<Rightarrow> number"
  Number_toString :: "number \<Rightarrow> string"

text \<open>
  \<open>Math.floor\<close>, and \<open>Math.pow\<close> at an integral exponent: the power, rounded. The powers
  of 1024 that \<open>formatBytes\<close> asks for are powers of two, hence doubles.
\<close>

definition Math_floor :: "number \<Rightarrow> number" where
  "Math_floor x = of_int \<lfloor>x\<rfloor>"

definition Math_pow :: "number \<Rightarrow> number \<Rightarrow> number" where
  "Math_pow b n = fl (if 0 \<le> n then b ^ nat \<lfloor>n\<rfloor> else 1 / b ^ nat (- \<lfloor>n\<rfloor>))"

text \<open>
  \<open>x.toFixed(2)\<close> for \<open>0 \<le> x < 10^21\<close>: with \<open>n\<close> the integer for which \<open>n / 100\<close> is
  nearest to \<open>x\<close> (the larger one of two), the decimal digits of \<open>n\<close> with a point before
  the last two.
\<close>

definition digit :: "nat \<Rightarrow> char" where
  "digit d = ''0123456789'' ! d"

fun digits :: "nat \<Rightarrow> string" where
  "digits n = (if n < 10 then [digit n] else digits (n div 10) @ [digit (n mod 10)])"

declare digits.simps [simp del]

definition toFixed2 :: "number \<Rightarrow> string" where
  "toFixed2 x =
     (let n = nat \<lfloor>100 * x + 1 / 2\<rfloor>
      in digits (n div 100) @ ''.'' @ [digit (n div 10 mod 10), digit (n mod 10)])"

text \<open>
  \<open>parseFloat\<close> on a string of digits, a point and digits, which is what \<open>toFixed\<close>
  returns: the double nearest to the decimal number the string denotes.
\<close>

definition digit_value :: "char \<Rightarrow> nat" where
  "digit_value c = length (takeWhile (\<lambda>d. d \<noteq> c) ''0123456789'')"

definition digits_value :: "string \<Rightarrow> nat" where
  "digits_value ds = foldl (\<lambda>n c. 10 * n + digit_value c) 0 ds"

definition parseFloat :: "string \<Rightarrow> number" where
  "parseFloat s =
     (let whole = takeWhile (\<lambda>c. c \<noteq> CHR ''.'') s;
          fraction = drop (Suc (length whole)) s
      in fl (of_nat (digits_value whole) + of_nat (digits_value fraction) / 10 ^ length fraction))"

text \<open>
  \<open>sizes[i]\<close>: the element at an index that is a whole number within the array, and
  \<open>undefined\<close> at any other index; \<open>ToString\<close> prints \<open>undefined\<close> by its name.
\<close>

definition sizes :: "string list" where
  "sizes = [''Bytes'', ''KB'', ''MB'', ''GB'', ''TB'']"

definition element :: "string list \<Rightarrow> number \<Rightarrow> string option" where
  "element xs i =
     (if of_int \<lfloor>i\<rfloor> = i \<and> 0 \<le> i \<and> \<lfloor>i\<rfloor> < int (length xs) then Some (xs ! nat \<lfloor>i\<rfloor>) else None)"

definition ToString :: "string option \<Rightarrow> string" where
  "ToString v = (case v of None \<Rightarrow> ''undefined'' | Some s \<Rightarrow> s)"

text \<open>
  \<open>formatBytes\<close> itself, for \<open>bytes \<ge> 0\<close>. Both divisions are divisions of doubles, that
  is the exact quotient rounded by \<open>fl\<close>.
\<close>

definition formatBytes :: "platform \<Rightarrow> number \<Rightarrow> string" where
  "formatBytes P bytes =
     (if bytes = 0 then ''0 Bytes''
      else let k = 1024;
               i = Math_floor (fl (Math_log P bytes / Math_log P k))
           in Number_toString P (parseFloat (toFixed2 (fl (bytes / Math_pow k i)))) @ '' '' @
              ToString (element sizes i))"

section \<open>The deduplicating storage engine\<close>

text \<open>
  Modelled from the spec: the Blob Store, the File Index, the Reclaimer, the Statistics
  Aggregator and the upload and delete endpoints are backend code of the repository that
  is not among the source files; only the widget that displays the published snapshot is.
  The definitions of this section follow sections 3, 4, 6 and 7 of the specification.
  Operations are atomic and run one after the other, and physical storage does not
  fail: the only error that arises is \<open>NotFound\<close>. A fingerprint is the value of a
  hasher \<open>h\<close> on the content, which is a parameter of the endpoints.
\<close>

type_synonym content = string

datatype error = IOFailure | CapacityExceeded | NotFound | ConcurrencyConflict

text \<open>
  Modelled from the spec: the Blob, the physical record keyed by fingerprint, with its
  byte size, its reference count and, for its storage location, the bytes kept there.
\<close>

record 'fp Blob =
  fingerprint :: 'fp
  byte_size :: nat
  reference_count :: nat
  stored :: content

text \<open>
  Modelled from the spec: the FileEntry, one uploaded file as the user sees it, holding
  a non-owning fingerprint reference to its Blob.
\<close>

record 'fp FileEntry =
  identity :: nat
  display_name :: string
  uploader :: string
  nominal_size :: nat
  upload_timestamp :: nat
  fingerprint_ref :: 'fp

text \<open>
  Modelled from the spec: the metadata handed to the File Index on creation, the File
  Index itself (its entries and the next fresh identity) and the engine state, which is
  the Blob Store next to the File Index.
\<close>

record metadata =
  meta_name :: string
  meta_owner :: string
  meta_size :: nat
  meta_timestamp :: nat

record 'fp FileIndex =
  entries :: "'fp FileEntry list"
  next_id :: nat

record 'fp engine =
  store :: "'fp Blob list"
  index :: "'fp FileIndex"

definition initial_engine :: "'fp engine" where
  "initial_engine = \<lparr>store = [], index = \<lparr>entries = [], next_id = 0\<rparr>\<rparr>"

subsection \<open>Blob Store\<close>

text \<open>
  Modelled from the spec: \<open>put_or_link(fingerprint, content_stream, declared_size)\<close>.
  Without a Blob for the fingerprint it creates one with reference count 1 that keeps the
  stream and records the declared size; with one it discards the stream and increments
  the reference count. The reference it returns is the fingerprint.
\<close>

definition put_or_link :: "'fp \<Rightarrow> content \<Rightarrow> nat \<Rightarrow> 'fp Blob list \<Rightarrow> 'fp \<times> 'fp Blob list" where
  "put_or_link fp content_stream declared_size bs =
     (case find (\<lambda>b. fingerprint b = fp) bs of
        None \<Rightarrow>
          (fp, bs @ [\<lparr>fingerprint = fp, byte_size = declared_size, reference_count = 1,
                       stored = content_stream\<rparr>])
      | Some _ \<Rightarrow>
          (fp, map (\<lambda>b. if fingerprint b = fp
                          then b\<lparr>reference_count := reference_count b + 1\<rparr> else b) bs))"

datatype 'fp ReclaimDecision = Reclaimable 'fp | Retained

text \<open>
  Modelled from the spec: \<open>unlink(fingerprint)\<close> decrements the reference count and,
  when it reaches 0, reports the Blob as reclaimable without deleting it. A fingerprint
  with no Blob, or with a Blob that no file references, is an unknown identity.
\<close>

definition unlink :: "'fp \<Rightarrow> 'fp Blob list \<Rightarrow> (error + 'fp ReclaimDecision) \<times> 'fp Blob list" where
  "unlink fp bs =
     (case find (\<lambda>b. fingerprint b = fp) bs of
        None \<Rightarrow> (Inl NotFound, bs)
      | Some b \<Rightarrow>
          if reference_count b = 0 then (Inl NotFound, bs)
          else (Inr (if reference_count b - 1 = 0 then Reclaimable fp else Retained),
                map (\<lambda>b. if fingerprint b = fp
                            then b\<lparr>reference_count := reference_count b - 1\<rparr> else b) bs))"

subsection \<open>Reclaimer\<close>

text \<open>
  Modelled from the spec: the Reclaimer consumes a decision, checks again that the
  reference count is 0 and only then deletes the Blob; a Blob that is already absent is
  not an error.
\<close>

fun reclaim :: "'fp ReclaimDecision \<Rightarrow> 'fp Blob list \<Rightarrow> 'fp Blob list" where
  "reclaim (Reclaimable fp) bs =
     filter (\<lambda>b. \<not> (fingerprint b = fp \<and> reference_count b = 0)) bs"
| "reclaim Retained bs = bs"

subsection \<open>File Index\<close>

text \<open>
  Modelled from the spec: \<open>create(metadata, blob_ref)\<close> inserts a FileEntry under a
  fresh identity and returns that identity.
\<close>

definition create :: "metadata \<Rightarrow> 'fp \<Rightarrow> 'fp FileIndex \<Rightarrow> nat \<times> 'fp FileIndex" where
  "create m blob_ref idx =
     (next_id idx,
      \<lparr>entries = entries idx @
                   [\<lparr>identity = next_id idx, display_name = meta_name m,
                     uploader = meta_owner m, nominal_size = meta_size m,
                     upload_timestamp = meta_timestamp m, fingerprint_ref = blob_ref\<rparr>],
       next_id = next_id idx + 1\<rparr>)"

text \<open>
  Modelled from the spec: \<open>delete(file_id)\<close> removes the FileEntry and returns its
  fingerprint; an unknown identity is reported and changes nothing.
\<close>

definition delete :: "nat \<Rightarrow> 'fp FileIndex \<Rightarrow> (error + 'fp) \<times> 'fp FileIndex" where
  "delete file_id idx =
     (case find (\<lambda>e. identity e = file_id) (entries idx) of
        None \<Rightarrow> (Inl NotFound, idx)
      | Some e \<Rightarrow>
          (Inr (fingerprint_ref e),
           idx\<lparr>entries := filter (\<lambda>e. identity e \<noteq> file_id) (entries idx)\<rparr>))"

subsection \<open>Endpoints\<close>

text \<open>
  Modelled from the spec: the upload endpoint accepts a byte stream and display metadata
  (name, owner, time), fingerprints the stream, calls \<open>put_or_link\<close> and then \<open>create\<close>.
  The nominal size of the new entry is the size of the content at upload time.
\<close>

record upload_request =
  req_name :: string
  req_owner :: string
  req_timestamp :: nat

definition upload ::
  "(content \<Rightarrow> 'fp) \<Rightarrow> content \<Rightarrow> upload_request \<Rightarrow> 'fp engine \<Rightarrow> nat \<times> 'fp engine" where
  "upload h c r s =
     (let (blob_ref, bs) = put_or_link (h c) c (length c) (store s);
          (file_id, idx) =
            create \<lparr>meta_name = req_name r, meta_owner = req_owner r, meta_size = length c,
                    meta_timestamp = req_timestamp r\<rparr> blob_ref (index s)
      in (file_id, \<lparr>store = bs, index = idx\<rparr>))"

text \<open>
  Modelled from the spec: the delete endpoint calls the File Index \<open>delete\<close>, then
  \<open>unlink\<close>, and forwards the decision to the Reclaimer. An error aborts the operation
  and leaves the engine as it was.
\<close>

definition delete_file :: "nat \<Rightarrow> 'fp engine \<Rightarrow> (error + unit) \<times> 'fp engine" where
  "delete_file file_id s =
     (case delete file_id (index s) of
        (Inl e, _) \<Rightarrow> (Inl e, s)
      | (Inr fp, idx) \<Rightarrow>
          (case unlink fp (store s) of
             (Inl e, _) \<Rightarrow> (Inl e, s)
           | (Inr decision, bs) \<Rightarrow> (Inr (), \<lparr>store = reclaim decision bs, index = idx\<rparr>)))"

text \<open>
  Modelled from the spec: the requests the two endpoints serve, the state after one
  request, and the state after a sequence of requests to the empty engine. \<open>uploaded\<close>
  collects the contents a sequence uploads.
\<close>

datatype operation = Upload content upload_request | Delete nat

fun step :: "(content \<Rightarrow> 'fp) \<Rightarrow> 'fp engine \<Rightarrow> operation \<Rightarrow> 'fp engine" where
  "step h s (Upload c r) = snd (upload h c r s)"
| "step h s (Delete file_id) = snd (delete_file file_id s)"

definition run :: "(content \<Rightarrow> 'fp) \<Rightarrow> operation list \<Rightarrow> 'fp engine" where
  "run h ops = foldl (step h) initial_engine ops"

fun uploaded :: "operation list \<Rightarrow> content set" where
  "uploaded [] = {}"
| "uploaded (Upload c r # ops) = insert c (uploaded ops)"
| "uploaded (Delete file_id # ops) = uploaded ops"

subsection \<open>Statistics Aggregator\<close>

text \<open>
  Modelled from the spec: the six derived counters of the data model, computed by full
  recomputation, that is by one scan of the File Index and one scan of the Blob Store.
  The counters are integers, so that a difference can be negative.
\<close>

record statistics =
  total_files :: int
  unique_files :: int
  duplicate_files :: int
  total_size :: int
  actual_size :: int
  storage_saved :: int

definition scan_index :: "'fp FileEntry list \<Rightarrow> int \<times> int" where
  "scan_index es = foldl (\<lambda>(n, bytes) e. (n + 1, bytes + int (nominal_size e))) (0, 0) es"

definition scan_store :: "'fp Blob list \<Rightarrow> int \<times> int" where
  "scan_store bs =
     foldl (\<lambda>(n, bytes) b. if reference_count b > 0 then (n + 1, bytes + int (byte_size b))
                             else (n, bytes)) (0, 0) bs"

definition snapshot :: "'fp engine \<Rightarrow> statistics" where
  "snapshot s =
     (let (files, bytes) = scan_index (entries (index s));
          (uniques, kept) = scan_store (store s)
      in \<lparr>total_files = files, unique_files = uniques, duplicate_files = files - uniques,
          total_size = bytes, actual_size = kept, storage_saved = bytes - kept\<rparr>)"

subsection \<open>Scenarios\<close>

text \<open>
  Modelled from the spec: the reference counting scenario of the testable properties,
  a run of uploads of one content that collects the identities the File Index hands out,
  and a run of deletes of given identities.
\<close>

fun upload_all ::
  "(content \<Rightarrow> 'fp) \<Rightarrow> content \<Rightarrow> upload_request list \<Rightarrow> 'fp engine \<Rightarrow> nat list \<times> 'fp engine" where
  "upload_all h c [] s = ([], s)"
| "upload_all h c (r # rs) s =
     (let (file_id, s') = upload h c r s;
          (file_ids, s'') = upload_all h c rs s'
      in (file_id # file_ids, s''))"

fun delete_all :: "nat list \<Rightarrow> 'fp engine \<Rightarrow> 'fp engine" where
  "delete_all [] s = s"
| "delete_all (file_id # file_ids) s = delete_all file_ids (snd (delete_file file_id s))"

subsection \<open>Consistency of the engine state\<close>

text \<open>
  Two predicates on engine states, used to reason about every state the endpoints can
  reach. \<open>linked\<close>: the Blob Store has one Blob per fingerprint, identities are unique and
  below \<open>next_id\<close>, the reference count of every Blob is positive and equals the number
  of entries that reference it, and every entry references a Blob of the store.
  \<open>sized\<close>: every Blob keeps a content of the set \<open>C\<close>, is keyed by the fingerprint of
  that content and records its length, and every entry carries the fingerprint and the
  length of a content of \<open>C\<close>.
\<close>

definition linked :: "'fp engine \<Rightarrow> bool" where
  "linked s \<longleftrightarrow>
     distinct (map fingerprint (store s)) \<and>
     distinct (map identity (entries (index s))) \<and>
     (\<forall>e\<in>set (entries (index s)). identity e < next_id (index s)) \<and>
     (\<forall>b\<in>set (store s). 0 < reference_count b \<and>
        reference_count b =
          length (filter (\<lambda>e. fingerprint_ref e = fingerprint b) (entries (index s)))) \<and>
     (\<forall>e\<in>set (entries (index s)). fingerprint_ref e \<in> fingerprint ` set (store s))"

definition sized :: "(content \<Rightarrow> 'fp) \<Rightarrow> content set \<Rightarrow> 'fp engine \<Rightarrow> bool" where
  "sized h C s \<longleftrightarrow>
     (\<forall>b\<in>set (store s). stored b \<in> C \<and> fingerprint b = h (stored b) \<and>
        byte_size b = length (stored b)) \<and>
     (\<forall>e\<in>set (entries (index s)). \<exists>c\<in>C. fingerprint_ref e = h c \<and> nominal_size e = length c)"

section \<open>Properties of the search and filter bar\<close>

text \<open>
  C1. For every state of the component, \<open>applyFilters\<close> leaves the state as it is and
  calls \<open>onFilterChange\<close> once. The record it passes maps each of the six field names
  whose current value is a non-empty string to that value, has no entry for a field whose
  value is empty, and has no other key.
\<close>

theorem applyFilters_nonempty_fields:
  "\<exists>filters. applyFilters st = (st, [filters]) \<and>
     filters ''search'' =
       (if search (filterValues st) = [] then None else Some (search (filterValues st))) \<and>
     filters ''fileType'' =
       (if fileType (filterValues st) = [] then None else Some (fileType (filterValues st))) \<and>
     filters ''sizeMin'' =
       (if sizeMin (filterValues st) = [] then None else Some (sizeMin (filterValues st))) \<and>
     filters ''sizeMax'' =
       (if sizeMax (filterValues st) = [] then None else Some (sizeMax (filterValues st))) \<and>
     filters ''uploadedFrom'' =
       (if uploadedFrom (filterValues st) = [] then None
        else Some (uploadedFrom (filterValues st))) \<and>
     filters ''uploadedTo'' =
       (if uploadedTo (filterValues st) = [] then None
        else Some (uploadedTo (filterValues st))) \<and>
     dom filters \<subseteq>
       {''search'', ''fileType'', ''sizeMin'', ''sizeMax'', ''uploadedFrom'', ''uploadedTo''}"
  by (auto simp: applyFilters_def Object_entries_def reducer_def Let_def split: if_splits)

theorem applyFilters_nonempty_fields_witness:
  "\<exists>filters.
     applyFilters
       \<lparr>isExpanded = True,
        filterValues = \<lparr>search = ''report'', fileType = [], sizeMin = ''10'', sizeMax = [],
                        uploadedFrom = [], uploadedTo = ''2024-01-31''\<rparr>\<rparr> =
       (\<lparr>isExpanded = True,
         filterValues = \<lparr>search = ''report'', fileType = [], sizeMin = ''10'', sizeMax = [],
                         uploadedFrom = [], uploadedTo = ''2024-01-31''\<rparr>\<rparr>, [filters]) \<and>
     filters ''search'' = Some ''report'' \<and> filters ''fileType'' = None \<and>
     filters ''sizeMin'' = Some ''10'' \<and> filters ''sizeMax'' = None \<and>
     filters ''uploadedFrom'' = None \<and> filters ''uploadedTo'' = Some ''2024-01-31''"
  using applyFilters_nonempty_fields
    [of "\<lparr>isExpanded = True,
          filterValues = \<lparr>search = ''report'', fileType = [], sizeMin = ''10'', sizeMax = [],
                          uploadedFrom = [], uploadedTo = ''2024-01-31''\<rparr>\<rparr>"]
  by auto

text \<open>
  C10. Whatever the state before, \<open>clearFilters\<close> leaves every one of the six filter
  fields empty, does not touch \<open>isExpanded\<close>, and calls \<open>onFilterChange\<close> once, with the
  record that has no key.
\<close>

theorem clearFilters_resets_all:
  "\<exists>st' filters. clearFilters st = (st', [filters]) \<and>
     search (filterValues st') = [] \<and> fileType (filterValues st') = [] \<and>
     sizeMin (filterValues st') = [] \<and> sizeMax (filterValues st') = [] \<and>
     uploadedFrom (filterValues st') = [] \<and> uploadedTo (filterValues st') = [] \<and>
     isExpanded st' = isExpanded st \<and> dom filters = {}"
  by (simp add: clearFilters_def)

theorem clearFilters_resets_all_witness:
  "\<exists>st' filters.
     clearFilters
       \<lparr>isExpanded = True,
        filterValues = \<lparr>search = ''cat'', fileType = ''image/'', sizeMin = ''1'',
                        sizeMax = ''900'', uploadedFrom = ''2024-01-01'',
                        uploadedTo = ''2024-12-31''\<rparr>\<rparr> = (st', [filters]) \<and>
     filterValues st' = filterValues initial_SearchFilter \<and> isExpanded st' \<and>
     filters = Map.empty"
  using clearFilters_resets_all
    [of "\<lparr>isExpanded = True,
          filterValues = \<lparr>search = ''cat'', fileType = ''image/'', sizeMin = ''1'',
                          sizeMax = ''900'', uploadedFrom = ''2024-01-01'',
                          uploadedTo = ''2024-12-31''\<rparr>\<rparr>"]
  by (auto simp: initial_SearchFilter_def)

section \<open>Properties of the statistics widget\<close>

text \<open>
  C2, as the specification states it, says that the object the widget consumes has
  exactly the six fields of the data model. The interface declares a seventh property,
  \<open>last_updated\<close>, which the widget renders below the counters.
\<close>

theorem StorageStatistics_has_last_updated:
  "''last_updated'' \<in> set (map fst StorageStatistics) \<and>
   ''last_updated'' \<in> set StorageStats_reads \<and>
   ''last_updated'' \<notin> set data_model_fields \<and>
   map fst StorageStatistics \<noteq> data_model_fields"
  by (simp add: StorageStatistics_def StorageStats_reads_def data_model_fields_def)

text \<open>
  C2, amended. The object the widget consumes has seven fields: the six counters of the
  data model, each a number, followed by \<open>last_updated\<close>, a string. Every property the
  widget reads is one of the seven.
\<close>

theorem StorageStatistics_fields:
  "StorageStatistics =
     map (\<lambda>field. (field, TNumber)) data_model_fields @ [(''last_updated'', TString)] \<and>
   distinct (map fst StorageStatistics) \<and> length StorageStatistics = 7 \<and>
   set StorageStats_reads \<subseteq> set (map fst StorageStatistics)"
  by (simp add: StorageStatistics_def StorageStats_reads_def data_model_fields_def)

text \<open>
  \<open>formatBytes\<close> on ordinary inputs: 0 is printed as \<open>0 Bytes\<close> on every platform, and
  1536 as \<open>1.5 KB\<close> on a platform whose \<open>Math.log\<close> returns the doubles nearest to
  \<open>ln 1024\<close> and \<open>ln 1536\<close> (6.931471805599453 and 7.336936913707618).
\<close>

lemma formatBytes_zero: "formatBytes P 0 = ''0 Bytes''"
  by (simp add: formatBytes_def)

lemma formatBytes_example:
  assumes "Math_log P 1024 = 7804143460206699 / 2 ^ 50"
    and "Math_log P 1536 = 516291036728351 / 2 ^ 46"
    and "Number_toString P (3 / 2) = ''1.5''"
  shows "formatBytes P 1536 = ''1.5 KB''"
proof -
  have i: "Math_floor (fl (Math_log P 1536 / Math_log P 1024)) = 1"
    unfolding assms by code_simp
  have q: "parseFloat (toFixed2 (fl (1536 / Math_pow 1024 1))) = 3 / 2"
    by code_simp
  have u: "ToString (element sizes 1) = ''KB''"
    by code_simp
  have nz: "(1536 :: number) \<noteq> 0" by simp
  show ?thesis
    by (simp only: formatBytes_def Let_def nz if_False i q u assms(3)) simp
qed

text \<open>
  C9 asks, for every positive byte count below \<open>1024^5\<close>, for the count divided by the
  power of 1024 at the floor of its base-1024 logarithm, with the matching unit; at
  \<open>1024^5 - 1 = 1125899906842623\<close> that is 1024 with the unit TB. The code does
  otherwise there. On a platform whose \<open>Math.log\<close> returns the doubles nearest to
  \<open>ln 1024\<close> and \<open>ln (1024^5 - 1)\<close>, which are \<open>7804143460206699 / 2^50\<close>
  (6.931471805599453) and \<open>4877589662629187 / 2^47\<close> (34.657359027997266), and which
  prints the number 1 as \<open>1\<close>, the quotient of the two logarithms rounds to the double 5,
  the index is 5, \<open>sizes[5]\<close> is undefined, and \<open>formatBytes\<close> returns \<open>1 undefined\<close>.
\<close>

theorem formatBytes_just_below_1024_pow_5:
  assumes "Math_log P 1024 = 7804143460206699 / 2 ^ 50"
    and "Math_log P 1125899906842623 = 4877589662629187 / 2 ^ 47"
    and "Number_toString P 1 = ''1''"
  shows "formatBytes P 1125899906842623 = ''1 undefined''"
proof -
  have i: "Math_floor (fl (Math_log P 1125899906842623 / Math_log P 1024)) = 5"
    unfolding assms by code_simp
  have q: "parseFloat (toFixed2 (fl (1125899906842623 / Math_pow 1024 5))) = 1"
    by code_simp
  have u: "ToString (element sizes 5) = ''undefined''"
    by code_simp
  have nz: "(1125899906842623 :: number) \<noteq> 0" by simp
  show ?thesis
    by (simp only: formatBytes_def Let_def nz if_False i q u assms(3)) simp
qed

theorem formatBytes_just_below_1024_pow_5_witness:
  "Math_log \<lparr>Math_log = (\<lambda>x. if x = 1024 then 7804143460206699 / 2 ^ 50
                              else 4877589662629187 / 2 ^ 47),
             Number_toString = (\<lambda>x. ''1'')\<rparr> 1024 = 7804143460206699 / 2 ^ 50 \<and>
   Math_log \<lparr>Math_log = (\<lambda>x. if x = 1024 then 7804143460206699 / 2 ^ 50
                              else 4877589662629187 / 2 ^ 47),
             Number_toString = (\<lambda>x. ''1'')\<rparr> 1125899906842623 = 4877589662629187 / 2 ^ 47 \<and>
   formatBytes \<lparr>Math_log = (\<lambda>x. if x = 1024 then 7804143460206699 / 2 ^ 50
                                 else 4877589662629187 / 2 ^ 47),
                Number_toString = (\<lambda>x. ''1'')\<rparr> 1125899906842623 = ''1 undefined''"
proof -
  let ?P = "\<lparr>Math_log = (\<lambda>x. if x = 1024 then 7804143460206699 / 2 ^ 50
                              else 4877589662629187 / 2 ^ 47),
             Number_toString = (\<lambda>x :: number. ''1'')\<rparr>"
  have a: "Math_log ?P 1024 = 7804143460206699 / 2 ^ 50" by simp
  have b: "Math_log ?P 1125899906842623 = 4877589662629187 / 2 ^ 47" by simp
  have c: "Number_toString ?P 1 = ''1''" by simp
  from a b formatBytes_just_below_1024_pow_5 [OF a b c] show ?thesis
    by (intro conjI)
qed

section \<open>Properties of the storage engine\<close>

subsection \<open>Lists keyed by a field\<close>

text \<open>
  Facts about \<open>find\<close>, \<open>filter\<close> and \<open>remove1\<close> on a list whose elements are told apart by a key,
  and the comparison of two weighted lists along an injection of keys.
\<close>

lemma find_SomeD: "find P xs = Some x \<Longrightarrow> x \<in> set xs \<and> P x"
  by (induction xs) (auto split: if_splits)

lemma find_key_SomeD: "find (\<lambda>x. f x = k) xs = Some x \<Longrightarrow> k \<in> f ` set xs"
  by (induction xs) (auto split: if_splits)

lemma find_key_None: "find (\<lambda>x. f x = k) xs = None \<longleftrightarrow> k \<notin> f ` set xs"
  by (induction xs) auto

lemma find_key_distinct:
  "distinct (map f xs) \<Longrightarrow> x \<in> set xs \<Longrightarrow> find (\<lambda>y. f y = f x) xs = Some x"
proof (induction xs)
  case Nil
  then show ?case by simp
next
  case (Cons a xs)
  show ?case
  proof (cases "a = x")
    case True
    then show ?thesis by simp
  next
    case False
    with Cons.prems have "x \<in> set xs" "f a \<notin> f ` set xs" "distinct (map f xs)" by auto
    then have "f a \<noteq> f x" by blast
    with Cons.IH \<open>x \<in> set xs\<close> \<open>distinct (map f xs)\<close> show ?thesis by simp
  qed
qed

lemma filter_key_absent: "k \<notin> f ` set xs \<Longrightarrow> filter (\<lambda>y. f y \<noteq> k) xs = xs"
  by (induction xs) auto

lemma filter_key_distinct:
  "distinct (map f xs) \<Longrightarrow> x \<in> set xs \<Longrightarrow> filter (\<lambda>y. f y \<noteq> f x) xs = remove1 x xs"
proof (induction xs)
  case Nil
  then show ?case by simp
next
  case (Cons a xs)
  show ?case
  proof (cases "a = x")
    case True
    with Cons.prems have "f x \<notin> f ` set xs" by simp
    then show ?thesis using True by (simp add: filter_key_absent)
  next
    case False
    with Cons.prems have "x \<in> set xs" "f a \<notin> f ` set xs" "distinct (map f xs)" by auto
    then have "f a \<noteq> f x" by blast
    with Cons.IH \<open>x \<in> set xs\<close> \<open>distinct (map f xs)\<close> False show ?thesis by simp
  qed
qed

lemma count_remove1:
  "e \<in> set es \<Longrightarrow>
   length (filter P (remove1 e es)) = (if P e then length (filter P es) - 1 else length (filter P es))"
  by (simp add: filter_remove1 length_remove1 remove1_idem)

lemma sum_list_int: "(\<Sum>x\<leftarrow>xs. int (f x)) = int (sum_list (map f xs))"
  by (induction xs) simp_all

lemma length_as_sum: "length xs = sum_list (map (\<lambda>_. Suc 0) xs)"
  by (induction xs) simp_all

lemma weight_le:
  fixes f :: "'a \<Rightarrow> nat" and g :: "'b \<Rightarrow> nat"
  assumes "distinct (map k bs)"
    and "\<And>b. b \<in> set bs \<Longrightarrow> \<exists>e\<in>set es. r e = k b \<and> f b \<le> g e"
  shows "sum_list (map f bs) \<le> sum_list (map g es)"
  using assms
proof (induction bs arbitrary: es)
  case Nil
  then show ?case by simp
next
  case (Cons b bs)
  from Cons.prems(2) [of b] obtain e where e: "e \<in> set es" "r e = k b" "f b \<le> g e"
    by auto
  have "\<exists>e'\<in>set (remove1 e es). r e' = k b' \<and> f b' \<le> g e'" if b': "b' \<in> set bs" for b'
  proof -
    from Cons.prems(2) [of b'] b' obtain e' where e': "e' \<in> set es" "r e' = k b'" "f b' \<le> g e'"
      by auto
    from Cons.prems(1) have "k b \<notin> k ` set bs" by simp
    with b' have "k b' \<noteq> k b" by (metis imageI)
    with e(2) e'(2) have "e' \<noteq> e" by auto
    with e'(1) have "e' \<in> set (remove1 e es)" by simp
    with e'(2,3) show ?thesis by blast
  qed
  moreover from Cons.prems(1) have "distinct (map k bs)" by simp
  ultimately have "sum_list (map f bs) \<le> sum_list (map g (remove1 e es))"
    by (rule Cons.IH [rotated])
  moreover have "sum_list (map g es) = g e + sum_list (map g (remove1 e es))"
    using e(1) by (rule sum_list_map_remove1)
  ultimately show ?case using e(3) by simp
qed

subsection \<open>What the endpoints do to the state\<close>

text \<open>
  The effect of an upload, and of a delete on a consistent state, written out as
  equations on the Blob Store and the File Index.
\<close>

lemma upload_store:
  "store (snd (upload h c r s)) =
     (if h c \<in> fingerprint ` set (store s)
      then map (\<lambda>b. if fingerprint b = h c
                     then b\<lparr>reference_count := reference_count b + 1\<rparr> else b) (store s)
      else store s @ [\<lparr>fingerprint = h c, byte_size = length c, reference_count = 1,
                        stored = c\<rparr>])"
  by (auto simp: upload_def put_or_link_def create_def find_key_None
      split: option.splits prod.splits dest: find_key_SomeD)

lemma upload_entries:
  "entries (index (snd (upload h c r s))) =
     entries (index s) @
       [\<lparr>identity = next_id (index s), display_name = req_name r, uploader = req_owner r,
         nominal_size = length c, upload_timestamp = req_timestamp r,
         fingerprint_ref = h c\<rparr>]"
  by (simp add: upload_def put_or_link_def create_def split: option.splits prod.splits)

lemma upload_next_id: "next_id (index (snd (upload h c r s))) = Suc (next_id (index s))"
  by (simp add: upload_def put_or_link_def create_def split: option.splits prod.splits)

lemma upload_file_id: "fst (upload h c r s) = next_id (index s)"
  by (simp add: upload_def put_or_link_def create_def split: option.splits prod.splits)

lemma delete_file_unknown:
  "i \<notin> identity ` set (entries (index s)) \<Longrightarrow> delete_file i s = (Inl NotFound, s)"
  by (auto simp: delete_file_def delete_def find_key_None split: option.splits dest: find_key_SomeD)

lemma delete_file_known:
  assumes "linked s" and e: "e \<in> set (entries (index s))"
  shows "delete_file (identity e) s =
     (Inr (),
      \<lparr>store = filter (\<lambda>b. 0 < reference_count b)
                 (map (\<lambda>b. if fingerprint b = fingerprint_ref e
                            then b\<lparr>reference_count := reference_count b - 1\<rparr> else b) (store s)),
       index = (index s)\<lparr>entries := remove1 e (entries (index s))\<rparr>\<rparr>)"
proof -
  from assms have dist: "distinct (map identity (entries (index s)))"
    and live: "\<forall>b\<in>set (store s). 0 < reference_count b"
    and dfp: "distinct (map fingerprint (store s))"
    and ex: "fingerprint_ref e \<in> fingerprint ` set (store s)"
    by (auto simp: linked_def)
  from ex obtain b where b: "b \<in> set (store s)" "fingerprint b = fingerprint_ref e"
    by auto
  have fe: "find (\<lambda>x. identity x = identity e) (entries (index s)) = Some e"
    using dist e by (rule find_key_distinct)
  have fb: "find (\<lambda>x. fingerprint x = fingerprint_ref e) (store s) = Some b"
    using find_key_distinct [OF dfp b(1)] b(2) by simp
  have del: "delete (identity e) (index s) =
      (Inr (fingerprint_ref e), (index s)\<lparr>entries := remove1 e (entries (index s))\<rparr>)"
    using fe filter_key_distinct [OF dist e] by (simp add: delete_def)
  let ?dec = "map (\<lambda>b. if fingerprint b = fingerprint_ref e
                        then b\<lparr>reference_count := reference_count b - 1\<rparr> else b) (store s)"
  have pos: "0 < reference_count b" using live b(1) by simp
  have unl: "unlink (fingerprint_ref e) (store s) =
      (Inr (if reference_count b - 1 = 0 then Reclaimable (fingerprint_ref e) else Retained),
       ?dec)"
    using fb pos by (simp add: unlink_def)
  have others: "0 < reference_count x" if "x \<in> set ?dec" "fingerprint x \<noteq> fingerprint_ref e" for x
    using that live by auto
  have this_one: "reference_count x = reference_count b - 1"
    if "x \<in> set ?dec" "fingerprint x = fingerprint_ref e" for x
  proof -
    from that obtain y where y: "y \<in> set (store s)" "fingerprint y = fingerprint_ref e"
      "x = y\<lparr>reference_count := reference_count y - 1\<rparr>"
      by (auto split: if_splits)
    from y(1,2) b dfp have "y = b"
      by (metis distinct_map inj_on_def)
    with y(3) show ?thesis by simp
  qed
  have rec: "reclaim (if reference_count b - 1 = 0 then Reclaimable (fingerprint_ref e)
                      else Retained) ?dec = filter (\<lambda>b. 0 < reference_count b) ?dec"
  proof (cases "reference_count b - 1 = 0")
    case True
    have "filter (\<lambda>x. \<not> (fingerprint x = fingerprint_ref e \<and> reference_count x = 0)) ?dec =
          filter (\<lambda>b. 0 < reference_count b) ?dec"
    proof (rule filter_cong [OF refl])
      fix x assume x: "x \<in> set ?dec"
      show "(\<not> (fingerprint x = fingerprint_ref e \<and> reference_count x = 0)) =
            (0 < reference_count x)"
      proof (cases "fingerprint x = fingerprint_ref e")
        case same: True
        from this_one [OF x same] True have "reference_count x = 0" by simp
        with same show ?thesis by simp
      next
        case False
        from others [OF x False] False show ?thesis by simp
      qed
    qed
    with True show ?thesis by simp
  next
    case False
    have "0 < reference_count x" if x: "x \<in> set ?dec" for x
    proof (cases "fingerprint x = fingerprint_ref e")
      case True
      from this_one [OF x True] False show ?thesis by simp
    next
      case other: False
      from others [OF x other] show ?thesis .
    qed
    then have "filter (\<lambda>b. 0 < reference_count b) ?dec = ?dec"
      by (simp only: filter_id_conv) blast
    with False show ?thesis by simp
  qed
  show ?thesis
    using rec by (simp add: delete_file_def del unl)
qed

lemma fingerprint_map_inc:
  "map fingerprint (map (\<lambda>b. if fingerprint b = k
       then b\<lparr>reference_count := reference_count b + 1\<rparr> else b) bs) = map fingerprint bs"
  by (induction bs) auto

lemma fingerprint_map_dec:
  "map fingerprint (map (\<lambda>b. if fingerprint b = k
       then b\<lparr>reference_count := reference_count b - 1\<rparr> else b) bs) = map fingerprint bs"
  by (induction bs) auto

subsection \<open>Every reachable state is consistent\<close>

text \<open>
  Both predicates hold of the empty engine and are kept by every upload and delete,
  hence hold after every sequence of operations.
\<close>

lemma linked_initial: "linked initial_engine"
  by (simp add: linked_def initial_engine_def)

lemma linked_upload:
  assumes "linked s"
  shows "linked (snd (upload h c r s))"
proof -
  let ?s = "snd (upload h c r s)"
  let ?new = "\<lparr>identity = next_id (index s), display_name = req_name r, uploader = req_owner r,
         nominal_size = length c, upload_timestamp = req_timestamp r,
         fingerprint_ref = h c\<rparr>"
  let ?count = "\<lambda>k es. length (filter (\<lambda>e. fingerprint_ref e = k) es)"
  from assms have dfp: "distinct (map fingerprint (store s))"
    and did: "distinct (map identity (entries (index s)))"
    and fresh: "\<And>e. e \<in> set (entries (index s)) \<Longrightarrow> identity e < next_id (index s)"
    and rc: "\<And>b. b \<in> set (store s) \<Longrightarrow> 0 < reference_count b \<and>
        reference_count b = ?count (fingerprint b) (entries (index s))"
    and ref: "\<And>e. e \<in> set (entries (index s)) \<Longrightarrow>
        fingerprint_ref e \<in> fingerprint ` set (store s)"
    by (auto simp: linked_def)
  have es: "entries (index ?s) = entries (index s) @ [?new]"
    by (rule upload_entries)
  have fps: "map fingerprint (store ?s) =
      (if h c \<in> fingerprint ` set (store s) then map fingerprint (store s)
       else map fingerprint (store s) @ [h c])"
    by (simp add: upload_store fingerprint_map_inc)
  have 1: "distinct (map fingerprint (store ?s))"
    using dfp by (simp add: fps)
  have "next_id (index s) \<notin> identity ` set (entries (index s))"
    using fresh by fastforce
  then have 2: "distinct (map identity (entries (index ?s)))"
    using did by (simp add: es)
  have 3: "\<forall>e\<in>set (entries (index ?s)). identity e < next_id (index ?s)"
    using fresh by (auto simp: es upload_next_id less_Suc_eq)
  have 4: "0 < reference_count b \<and>
      reference_count b = ?count (fingerprint b) (entries (index ?s))"
    if b: "b \<in> set (store ?s)" for b
  proof (cases "h c \<in> fingerprint ` set (store s)")
    case True
    with b obtain y where y: "y \<in> set (store s)"
      "b = (if fingerprint y = h c then y\<lparr>reference_count := reference_count y + 1\<rparr> else y)"
      by (auto simp: upload_store)
    show ?thesis
    proof (cases "fingerprint y = h c")
      case True
      with y(2) rc [OF y(1)] show ?thesis by (auto simp: es)
    next
      case False
      with y(2) rc [OF y(1)] show ?thesis by (auto simp: es)
    qed
  next
    case False
    have none: "?count (h c) (entries (index s)) = 0"
      unfolding length_0_conv filter_empty_conv using ref False by metis
    from False b consider "b \<in> set (store s)"
      | "b = \<lparr>fingerprint = h c, byte_size = length c, reference_count = 1, stored = c\<rparr>"
      by (auto simp: upload_store)
    then show ?thesis
    proof cases
      case 1
      with False have "fingerprint b \<noteq> h c" by (metis imageI)
      with rc [OF 1] show ?thesis by (auto simp: es)
    next
      case 2
      with none show ?thesis by (auto simp: es)
    qed
  qed
  have sub: "set (map fingerprint (store s)) \<subseteq> set (map fingerprint (store ?s))"
    by (auto simp: fps)
  have new: "h c \<in> set (map fingerprint (store ?s))"
    by (auto simp: fps)
  have 5: "\<forall>e\<in>set (entries (index ?s)). fingerprint_ref e \<in> fingerprint ` set (store ?s)"
  proof
    fix e assume "e \<in> set (entries (index ?s))"
    then consider "e \<in> set (entries (index s))" | "e = ?new" by (auto simp: es)
    then show "fingerprint_ref e \<in> fingerprint ` set (store ?s)"
    proof cases
      case 1
      from ref [OF 1] sub show ?thesis by auto
    next
      case 2
      with new show ?thesis by simp
    qed
  qed
  show ?thesis
    unfolding linked_def using 1 2 3 4 5 by blast
qed

lemma linked_delete_file:
  assumes "linked s"
  shows "linked (snd (delete_file i s))"
proof (cases "i \<in> identity ` set (entries (index s))")
  case False
  with assms show ?thesis by (simp add: delete_file_unknown)
next
  case True
  then obtain e where e: "e \<in> set (entries (index s))" and i: "i = identity e"
    by auto
  let ?k = "fingerprint_ref e"
  let ?dec = "map (\<lambda>b. if fingerprint b = ?k
                then b\<lparr>reference_count := reference_count b - 1\<rparr> else b) (store s)"
  let ?s = "snd (delete_file i s)"
  let ?count = "\<lambda>k es. length (filter (\<lambda>e. fingerprint_ref e = k) es)"
  have st: "store ?s = filter (\<lambda>b. 0 < reference_count b) ?dec"
    and es: "entries (index ?s) = remove1 e (entries (index s))"
    and nx: "next_id (index ?s) = next_id (index s)"
    by (simp_all add: i delete_file_known [OF assms e])
  from assms have dfp: "distinct (map fingerprint (store s))"
    and did: "distinct (map identity (entries (index s)))"
    and fresh: "\<And>e. e \<in> set (entries (index s)) \<Longrightarrow> identity e < next_id (index s)"
    and pos: "\<And>b. b \<in> set (store s) \<Longrightarrow> 0 < reference_count b"
    and rc: "\<And>b. b \<in> set (store s) \<Longrightarrow>
        reference_count b = ?count (fingerprint b) (entries (index s))"
    and ref: "\<And>e. e \<in> set (entries (index s)) \<Longrightarrow>
        fingerprint_ref e \<in> fingerprint ` set (store s)"
    by (auto simp: linked_def)
  have "distinct (map fingerprint ?dec)"
    using dfp by (simp only: fingerprint_map_dec)
  then have 1: "distinct (map fingerprint (store ?s))"
    unfolding st by (rule distinct_map_filter)
  have 2: "distinct (map identity (entries (index ?s)))"
    unfolding es using did
    by (metis distinct_map distinct_remove1 inj_on_subset set_remove1_subset)
  have 3: "\<forall>x\<in>set (entries (index ?s)). identity x < next_id (index ?s)"
    unfolding es nx using fresh by (metis notin_set_remove1)
  have cnt: "?count k (entries (index ?s)) =
      (if k = ?k then ?count k (entries (index s)) - 1 else ?count k (entries (index s)))" for k
    unfolding es using count_remove1 [OF e, of "\<lambda>e. fingerprint_ref e = k"] by auto
  have 4: "0 < reference_count b \<and>
      reference_count b = ?count (fingerprint b) (entries (index ?s))"
    if b: "b \<in> set (store ?s)" for b
  proof -
    from b have live: "0 < reference_count b" and "b \<in> set ?dec"
      by (simp_all add: st)
    then obtain y where y: "y \<in> set (store s)"
      "b = (if fingerprint y = ?k then y\<lparr>reference_count := reference_count y - 1\<rparr> else y)"
      by auto
    show ?thesis
    proof (cases "fingerprint y = ?k")
      case True
      with y(2) rc [OF y(1)] live show ?thesis by (simp add: cnt)
    next
      case False
      with y(2) rc [OF y(1)] live show ?thesis by (simp add: cnt)
    qed
  qed
  have 5: "\<forall>x\<in>set (entries (index ?s)). fingerprint_ref x \<in> fingerprint ` set (store ?s)"
  proof
    fix x assume x: "x \<in> set (entries (index ?s))"
    then have x_old: "x \<in> set (entries (index s))"
      unfolding es by (metis notin_set_remove1)
    from ref [OF x_old] obtain y where y: "y \<in> set (store s)" "fingerprint y = fingerprint_ref x"
      by auto
    let ?y = "if fingerprint y = ?k then y\<lparr>reference_count := reference_count y - 1\<rparr> else y"
    have in_dec: "?y \<in> set ?dec" using y(1) by auto
    have fp: "fingerprint ?y = fingerprint_ref x" using y(2) by simp
    have "0 < reference_count ?y"
    proof (cases "fingerprint y = ?k")
      case False
      with pos [OF y(1)] show ?thesis by simp
    next
      case True
      have "x \<in> set (filter (\<lambda>e. fingerprint_ref e = ?k) (entries (index ?s)))"
        using x y(2) True by simp
      then have "0 < ?count ?k (entries (index ?s))"
        by (metis length_pos_if_in_set)
      then have "1 < ?count ?k (entries (index s))"
        by (simp add: cnt)
      with rc [OF y(1)] True show ?thesis by simp
    qed
    with in_dec have "?y \<in> set (store ?s)" unfolding st by simp
    then have "fingerprint ?y \<in> fingerprint ` set (store ?s)" by (rule imageI)
    then show "fingerprint_ref x \<in> fingerprint ` set (store ?s)"
      by (simp only: fp)
  qed
  show ?thesis
    unfolding linked_def using 1 2 3 4 5 by blast
qed

lemma linked_foldl: "linked s \<Longrightarrow> linked (foldl (step h) s ops)"
proof (induction ops arbitrary: s)
  case Nil
  then show ?case by simp
next
  case (Cons op ops)
  have "linked (step h s op)"
    using Cons.prems by (cases op) (simp_all add: linked_upload linked_delete_file)
  then show ?case using Cons.IH by simp
qed

lemma linked_run: "linked (run h ops)"
  unfolding run_def by (rule linked_foldl [OF linked_initial])

lemma sized_initial: "sized h C initial_engine"
  by (simp add: sized_def initial_engine_def)

lemma sized_upload:
  assumes "sized h C s" and "c \<in> C"
  shows "sized h C (snd (upload h c r s))"
proof -
  let ?s = "snd (upload h c r s)"
  from assms(1) have old_b: "\<And>b. b \<in> set (store s) \<Longrightarrow>
      stored b \<in> C \<and> fingerprint b = h (stored b) \<and> byte_size b = length (stored b)"
    and old_e: "\<And>e. e \<in> set (entries (index s)) \<Longrightarrow>
      \<exists>c\<in>C. fingerprint_ref e = h c \<and> nominal_size e = length c"
    by (auto simp: sized_def)
  have 1: "stored b \<in> C \<and> fingerprint b = h (stored b) \<and> byte_size b = length (stored b)"
    if "b \<in> set (store ?s)" for b
  proof (cases "h c \<in> fingerprint ` set (store s)")
    case True
    with that obtain y where y: "y \<in> set (store s)"
      "b = (if fingerprint y = h c then y\<lparr>reference_count := reference_count y + 1\<rparr> else y)"
      by (auto simp: upload_store)
    from old_b [OF y(1)] y(2) show ?thesis by (cases "fingerprint y = h c") simp_all
  next
    case False
    with that consider "b \<in> set (store s)"
      | "b = \<lparr>fingerprint = h c, byte_size = length c, reference_count = 1, stored = c\<rparr>"
      by (auto simp: upload_store)
    then show ?thesis
    proof cases
      case 1
      then show ?thesis by (rule old_b)
    next
      case 2
      with assms(2) show ?thesis by simp
    qed
  qed
  have 2: "\<exists>c\<in>C. fingerprint_ref e = h c \<and> nominal_size e = length c"
    if "e \<in> set (entries (index ?s))" for e
  proof -
    from that consider "e \<in> set (entries (index s))"
      | "fingerprint_ref e = h c \<and> nominal_size e = length c"
      by (auto simp: upload_entries)
    then show ?thesis
    proof cases
      case 1
      then show ?thesis by (rule old_e)
    next
      case 2
      with assms(2) show ?thesis by blast
    qed
  qed
  show ?thesis unfolding sized_def using 1 2 by blast
qed

lemma sized_delete_file:
  assumes "linked s" and "sized h C s"
  shows "sized h C (snd (delete_file i s))"
proof (cases "i \<in> identity ` set (entries (index s))")
  case False
  with assms(2) show ?thesis by (simp add: delete_file_unknown)
next
  case True
  then obtain e where e: "e \<in> set (entries (index s))" and i: "i = identity e"
    by auto
  let ?k = "fingerprint_ref e"
  let ?dec = "map (\<lambda>b. if fingerprint b = ?k
                then b\<lparr>reference_count := reference_count b - 1\<rparr> else b) (store s)"
  let ?s = "snd (delete_file i s)"
  have st: "store ?s = filter (\<lambda>b. 0 < reference_count b) ?dec"
    and es: "entries (index ?s) = remove1 e (entries (index s))"
    by (simp_all add: i delete_file_known [OF assms(1) e])
  from assms(2) have old_b: "\<And>b. b \<in> set (store s) \<Longrightarrow>
      stored b \<in> C \<and> fingerprint b = h (stored b) \<and> byte_size b = length (stored b)"
    and old_e: "\<And>e. e \<in> set (entries (index s)) \<Longrightarrow>
      \<exists>c\<in>C. fingerprint_ref e = h c \<and> nominal_size e = length c"
    by (auto simp: sized_def)
  have 1: "stored b \<in> C \<and> fingerprint b = h (stored b) \<and> byte_size b = length (stored b)"
    if "b \<in> set (store ?s)" for b
  proof -
    from that have "b \<in> set ?dec" by (simp add: st)
    then obtain y where y: "y \<in> set (store s)"
      "b = (if fingerprint y = ?k then y\<lparr>reference_count := reference_count y - 1\<rparr> else y)"
      by auto
    from old_b [OF y(1)] y(2) show ?thesis by (cases "fingerprint y = ?k") simp_all
  qed
  have 2: "\<exists>c\<in>C. fingerprint_ref x = h c \<and> nominal_size x = length c"
    if "x \<in> set (entries (index ?s))" for x
  proof -
    from that have "x \<in> set (entries (index s))"
      unfolding es by (metis notin_set_remove1)
    then show ?thesis by (rule old_e)
  qed
  show ?thesis unfolding sized_def using 1 2 by blast
qed

lemma consistent_foldl:
  "linked s \<Longrightarrow> sized h C s \<Longrightarrow> uploaded ops \<subseteq> C \<Longrightarrow>
   linked (foldl (step h) s ops) \<and> sized h C (foldl (step h) s ops)"
proof (induction ops arbitrary: s)
  case Nil
  then show ?case by simp
next
  case (Cons op ops)
  show ?case
  proof (cases op)
    case (Upload c r)
    with Cons.prems have "c \<in> C" "uploaded ops \<subseteq> C" by simp_all
    with Cons.prems Cons.IH [of "snd (upload h c r s)"] Upload show ?thesis
      by (simp add: linked_upload sized_upload)
  next
    case (Delete i)
    with Cons.prems have "uploaded ops \<subseteq> C" by simp
    with Cons.prems Cons.IH [of "snd (delete_file i s)"] Delete show ?thesis
      by (simp add: linked_delete_file sized_delete_file)
  qed
qed

lemma sized_run: "sized h (uploaded ops) (run h ops)"
  unfolding run_def
  using consistent_foldl [OF linked_initial sized_initial subset_refl] by blast

lemma linked_referenced:
  assumes "linked s" and "b \<in> set (store s)"
  shows "\<exists>e\<in>set (entries (index s)). fingerprint_ref e = fingerprint b"
proof -
  from assms have "0 < length (filter (\<lambda>e. fingerprint_ref e = fingerprint b) (entries (index s)))"
    by (auto simp: linked_def)
  then obtain e where "e \<in> set (filter (\<lambda>e. fingerprint_ref e = fingerprint b) (entries (index s)))"
    by (metis length_greater_0_conv last_in_set)
  then show ?thesis by auto
qed

lemma linked_live: "linked s \<Longrightarrow> filter (\<lambda>b. reference_count b > 0) (store s) = store s"
  unfolding linked_def filter_id_conv by blast

lemma linked_unique_le_total:
  assumes "linked s"
  shows "length (store s) \<le> length (entries (index s))"
proof -
  have "sum_list (map (\<lambda>_. Suc 0) (store s)) \<le> sum_list (map (\<lambda>_. Suc 0) (entries (index s)))"
  proof (rule weight_le [where k = fingerprint and r = fingerprint_ref])
    show "distinct (map fingerprint (store s))" using assms by (simp add: linked_def)
  next
    fix b assume "b \<in> set (store s)"
    from linked_referenced [OF assms this]
    show "\<exists>e\<in>set (entries (index s)). fingerprint_ref e = fingerprint b \<and> Suc 0 \<le> Suc 0"
      by simp
  qed
  then show ?thesis by (simp only: length_as_sum [symmetric])
qed

lemma consistent_sizes:
  assumes "linked s" and "sized h C s" and "inj_on h C"
  shows "sum_list (map byte_size (store s)) \<le> sum_list (map nominal_size (entries (index s)))"
proof (rule weight_le [where k = fingerprint and r = fingerprint_ref])
  show "distinct (map fingerprint (store s))" using assms(1) by (simp add: linked_def)
next
  fix b assume b: "b \<in> set (store s)"
  from linked_referenced [OF assms(1) b] obtain e
    where e: "e \<in> set (entries (index s))" "fingerprint_ref e = fingerprint b" by auto
  from assms(2) e(1) obtain c where c: "c \<in> C" "fingerprint_ref e = h c" "nominal_size e = length c"
    by (auto simp: sized_def)
  from assms(2) b have sb: "stored b \<in> C" "fingerprint b = h (stored b)"
    "byte_size b = length (stored b)"
    by (auto simp: sized_def)
  from e(2) c(2) sb(2) have "h (stored b) = h c" by simp
  with assms(3) have "stored b = c" using sb(1) c(1) by (rule inj_onD)
  with sb(3) c(3) have "byte_size b \<le> nominal_size e" by simp
  with e show "\<exists>e\<in>set (entries (index s)). fingerprint_ref e = fingerprint b \<and>
      byte_size b \<le> nominal_size e" by blast
qed

subsection \<open>The scans of the aggregator\<close>

text \<open>
  The two scans compute a count and a sum; the snapshot in closed form.
\<close>

lemma scan_index_foldl:
  "foldl (\<lambda>(n, bytes) e. (n + 1, bytes + int (nominal_size e))) (n0, t0) es =
     (n0 + int (length es), t0 + (\<Sum>e\<leftarrow>es. int (nominal_size e)))"
  by (induction es arbitrary: n0 t0) simp_all

lemma scan_store_foldl:
  "foldl (\<lambda>(n, bytes) b. if reference_count b > 0 then (n + 1, bytes + int (byte_size b))
                          else (n, bytes)) (n0, t0) bs =
     (n0 + int (length (filter (\<lambda>b. reference_count b > 0) bs)),
      t0 + (\<Sum>b\<leftarrow>filter (\<lambda>b. reference_count b > 0) bs. int (byte_size b)))"
  by (induction bs arbitrary: n0 t0) simp_all

lemma scan_index_eq:
  "scan_index es = (int (length es), (\<Sum>e\<leftarrow>es. int (nominal_size e)))"
  by (simp add: scan_index_def scan_index_foldl)

lemma scan_store_eq:
  "scan_store bs =
     (int (length (filter (\<lambda>b. reference_count b > 0) bs)),
      (\<Sum>b\<leftarrow>filter (\<lambda>b. reference_count b > 0) bs. int (byte_size b)))"
  by (simp add: scan_store_def scan_store_foldl)

lemma snapshot_eq:
  "snapshot s =
     \<lparr>total_files = int (length (entries (index s))),
      unique_files = int (length (filter (\<lambda>b. reference_count b > 0) (store s))),
      duplicate_files = int (length (entries (index s))) -
        int (length (filter (\<lambda>b. reference_count b > 0) (store s))),
      total_size = (\<Sum>e\<leftarrow>entries (index s). int (nominal_size e)),
      actual_size = (\<Sum>b\<leftarrow>filter (\<lambda>b. reference_count b > 0) (store s). int (byte_size b)),
      storage_saved = (\<Sum>e\<leftarrow>entries (index s). int (nominal_size e)) -
        (\<Sum>b\<leftarrow>filter (\<lambda>b. reference_count b > 0) (store s). int (byte_size b))\<rparr>"
  by (simp add: snapshot_def scan_index_eq scan_store_eq)

subsection \<open>Concrete runs\<close>

text \<open>The definitions a concrete run is evaluated with.\<close>

lemmas engine_eval =
  run_def initial_engine_def upload_def put_or_link_def create_def delete_file_def
  delete_def unlink_def snapshot_def scan_index_def scan_store_def

text \<open>
  The example scenario of the specification: two uploads of the five bytes \<open>hello\<close>,
  then the deletion of both files. The model publishes the snapshots the specification
  lists, for every hasher, and reclaims the Blob at the end.
\<close>

lemma example_scenario:
  fixes a b :: upload_request
  shows "snapshot (run h [Upload ''hello'' a]) =
           \<lparr>total_files = 1, unique_files = 1, duplicate_files = 0,
            total_size = 5, actual_size = 5, storage_saved = 0\<rparr>"
    and "snapshot (run h [Upload ''hello'' a, Upload ''hello'' b]) =
           \<lparr>total_files = 2, unique_files = 1, duplicate_files = 1,
            total_size = 10, actual_size = 5, storage_saved = 5\<rparr>"
    and "snapshot (run h [Upload ''hello'' a, Upload ''hello'' b, Delete 0]) =
           \<lparr>total_files = 1, unique_files = 1, duplicate_files = 0,
            total_size = 5, actual_size = 5, storage_saved = 0\<rparr>"
    and "snapshot (run h [Upload ''hello'' a, Upload ''hello'' b, Delete 0, Delete 1]) =
           \<lparr>total_files = 0, unique_files = 0, duplicate_files = 0,
            total_size = 0, actual_size = 0, storage_saved = 0\<rparr>"
    and "store (run h [Upload ''hello'' a, Upload ''hello'' b, Delete 0, Delete 1]) = []"
  by (simp_all add: engine_eval)

subsection \<open>Statistics snapshots\<close>

text \<open>
  C5. In the snapshot published after any sequence of uploads and deletes, \<open>total_files\<close>
  is the number of entries of the File Index, \<open>unique_files\<close> is the number of distinct
  fingerprints of Blobs with a positive reference count, \<open>duplicate_files\<close> is
  \<open>total_files\<close> minus \<open>unique_files\<close>, and \<open>unique_files\<close> does not exceed
  \<open>total_files\<close>.
\<close>

theorem duplicate_files_is_difference:
  "total_files (snapshot (run h ops)) = int (length (entries (index (run h ops)))) \<and>
   unique_files (snapshot (run h ops)) =
     int (card (fingerprint ` {b \<in> set (store (run h ops)). 0 < reference_count b})) \<and>
   duplicate_files (snapshot (run h ops)) =
     total_files (snapshot (run h ops)) - unique_files (snapshot (run h ops)) \<and>
   unique_files (snapshot (run h ops)) \<le> total_files (snapshot (run h ops))"
proof -
  let ?s = "run h ops"
  have inv: "linked ?s" by (rule linked_run)
  have live: "filter (\<lambda>b. reference_count b > 0) (store ?s) = store ?s"
    using inv by (rule linked_live)
  have "{b \<in> set (store ?s). 0 < reference_count b} = set (store ?s)"
    using inv by (auto simp: linked_def)
  moreover have "card (fingerprint ` set (store ?s)) = length (store ?s)"
    using inv distinct_card [of "map fingerprint (store ?s)"] by (simp add: linked_def)
  ultimately have uniq: "card (fingerprint ` {b \<in> set (store ?s). 0 < reference_count b}) =
      length (store ?s)" by simp
  have le: "length (store ?s) \<le> length (entries (index ?s))"
    using inv by (rule linked_unique_le_total)
  show ?thesis
    using le by (simp add: snapshot_eq live uniq)
qed

theorem duplicate_files_is_difference_witness:
  "total_files (snapshot (run length
     [Upload ''hello'' \<lparr>req_name = ''a.txt'', req_owner = ''ann'', req_timestamp = 1\<rparr>,
      Upload ''hello'' \<lparr>req_name = ''b.txt'', req_owner = ''bob'', req_timestamp = 2\<rparr>,
      Upload ''hi'' \<lparr>req_name = ''c.txt'', req_owner = ''ann'', req_timestamp = 3\<rparr>])) = 3 \<and>
   unique_files (snapshot (run length
     [Upload ''hello'' \<lparr>req_name = ''a.txt'', req_owner = ''ann'', req_timestamp = 1\<rparr>,
      Upload ''hello'' \<lparr>req_name = ''b.txt'', req_owner = ''bob'', req_timestamp = 2\<rparr>,
      Upload ''hi'' \<lparr>req_name = ''c.txt'', req_owner = ''ann'', req_timestamp = 3\<rparr>])) = 2 \<and>
   duplicate_files (snapshot (run length
     [Upload ''hello'' \<lparr>req_name = ''a.txt'', req_owner = ''ann'', req_timestamp = 1\<rparr>,
      Upload ''hello'' \<lparr>req_name = ''b.txt'', req_owner = ''bob'', req_timestamp = 2\<rparr>,
      Upload ''hi'' \<lparr>req_name = ''c.txt'', req_owner = ''ann'', req_timestamp = 3\<rparr>])) = 1"
  using duplicate_files_is_difference [of length
     "[Upload ''hello'' \<lparr>req_name = ''a.txt'', req_owner = ''ann'', req_timestamp = 1\<rparr>,
      Upload ''hello'' \<lparr>req_name = ''b.txt'', req_owner = ''bob'', req_timestamp = 2\<rparr>,
      Upload ''hi'' \<lparr>req_name = ''c.txt'', req_owner = ''ann'', req_timestamp = 3\<rparr>]"]
  by (simp add: engine_eval)

text \<open>
  C3. Let no two distinct contents uploaded in a sequence of operations have the same
  fingerprint. In the snapshot published after the sequence, \<open>total_size\<close> is the sum of
  the nominal sizes of all entries, \<open>actual_size\<close> is the sum of the byte sizes of the
  Blobs with a positive reference count, and \<open>storage_saved\<close> is their difference and is
  not negative.
\<close>

theorem conservation_law:
  assumes "inj_on h (uploaded ops)"
  shows "total_size (snapshot (run h ops)) =
           (\<Sum>e\<leftarrow>entries (index (run h ops)). int (nominal_size e)) \<and>
         actual_size (snapshot (run h ops)) =
           (\<Sum>b\<leftarrow>filter (\<lambda>b. 0 < reference_count b) (store (run h ops)). int (byte_size b)) \<and>
         storage_saved (snapshot (run h ops)) =
           total_size (snapshot (run h ops)) - actual_size (snapshot (run h ops)) \<and>
         0 \<le> storage_saved (snapshot (run h ops))"
proof -
  let ?s = "run h ops"
  have inv: "linked ?s" by (rule linked_run)
  have live: "filter (\<lambda>b. reference_count b > 0) (store ?s) = store ?s"
    using inv by (rule linked_live)
  have "sum_list (map byte_size (store ?s)) \<le> sum_list (map nominal_size (entries (index ?s)))"
    using inv sized_run assms by (rule consistent_sizes)
  then have "(\<Sum>b\<leftarrow>store ?s. int (byte_size b)) \<le> (\<Sum>e\<leftarrow>entries (index ?s). int (nominal_size e))"
    by (simp only: sum_list_int of_nat_le_iff)
  then show ?thesis
    by (simp add: snapshot_eq live)
qed

theorem conservation_law_witness:
  "inj_on length (uploaded
     [Upload ''hello'' \<lparr>req_name = ''a.txt'', req_owner = ''ann'', req_timestamp = 1\<rparr>,
      Upload ''hello'' \<lparr>req_name = ''b.txt'', req_owner = ''bob'', req_timestamp = 2\<rparr>,
      Upload ''hi'' \<lparr>req_name = ''c.txt'', req_owner = ''ann'', req_timestamp = 3\<rparr>,
      Delete 2]) \<and>
   total_size (snapshot (run length
     [Upload ''hello'' \<lparr>req_name = ''a.txt'', req_owner = ''ann'', req_timestamp = 1\<rparr>,
      Upload ''hello'' \<lparr>req_name = ''b.txt'', req_owner = ''bob'', req_timestamp = 2\<rparr>,
      Upload ''hi'' \<lparr>req_name = ''c.txt'', req_owner = ''ann'', req_timestamp = 3\<rparr>,
      Delete 2])) = 10 \<and>
   actual_size (snapshot (run length
     [Upload ''hello'' \<lparr>req_name = ''a.txt'', req_owner = ''ann'', req_timestamp = 1\<rparr>,
      Upload ''hello'' \<lparr>req_name = ''b.txt'', req_owner = ''bob'', req_timestamp = 2\<rparr>,
      Upload ''hi'' \<lparr>req_name = ''c.txt'', req_owner = ''ann'', req_timestamp = 3\<rparr>,
      Delete 2])) = 5 \<and>
   storage_saved (snapshot (run length
     [Upload ''hello'' \<lparr>req_name = ''a.txt'', req_owner = ''ann'', req_timestamp = 1\<rparr>,
      Upload ''hello'' \<lparr>req_name = ''b.txt'', req_owner = ''bob'', req_timestamp = 2\<rparr>,
      Upload ''hi'' \<lparr>req_name = ''c.txt'', req_owner = ''ann'', req_timestamp = 3\<rparr>,
      Delete 2])) = 5"
proof -
  have inj: "inj_on length (uploaded
     [Upload ''hello'' \<lparr>req_name = ''a.txt'', req_owner = ''ann'', req_timestamp = 1\<rparr>,
      Upload ''hello'' \<lparr>req_name = ''b.txt'', req_owner = ''bob'', req_timestamp = 2\<rparr>,
      Upload ''hi'' \<lparr>req_name = ''c.txt'', req_owner = ''ann'', req_timestamp = 3\<rparr>,
      Delete 2])"
    by simp
  show ?thesis
    using inj conservation_law [OF inj] by (simp add: engine_eval)
qed

subsection \<open>Reference counting\<close>

lemma upload_all_foldl:
  "upload_all h c rs s = (ids, s') \<Longrightarrow> s' = foldl (step h) s (map (Upload c) rs)"
proof (induction rs arbitrary: s ids s')
  case Nil
  then show ?case by simp
next
  case (Cons r rs)
  obtain ids' s'' where rest: "upload_all h c rs (snd (upload h c r s)) = (ids', s'')"
    by (cases "upload_all h c rs (snd (upload h c r s))")
  with Cons.prems have "s' = s''"
    by (simp add: split_def)
  with Cons.IH [OF rest] show ?case by simp
qed

lemma upload_all_entries:
  "upload_all h c rs s = (ids, s') \<Longrightarrow>
   map identity (entries (index s')) = map identity (entries (index s)) @ ids \<and>
   length ids = length rs \<and>
   (\<forall>e\<in>set (entries (index s')). e \<in> set (entries (index s)) \<or> fingerprint_ref e = h c)"
proof (induction rs arbitrary: s ids s')
  case Nil
  then show ?case by simp
next
  case (Cons r rs)
  let ?s = "snd (upload h c r s)"
  obtain ids' s'' where rest: "upload_all h c rs ?s = (ids', s'')"
    by (cases "upload_all h c rs ?s")
  with Cons.prems have eq: "s' = s''" "ids = next_id (index s) # ids'"
    by (simp_all add: split_def upload_file_id)
  from Cons.IH [OF rest] have ih:
    "map identity (entries (index s'')) = map identity (entries (index ?s)) @ ids'"
    "length ids' = length rs"
    "\<And>e. e \<in> set (entries (index s'')) \<Longrightarrow>
       e \<in> set (entries (index ?s)) \<or> fingerprint_ref e = h c"
    by blast+
  have "e \<in> set (entries (index s)) \<or> fingerprint_ref e = h c"
    if "e \<in> set (entries (index s''))" for e
    using ih(3) [OF that] by (auto simp: upload_entries)
  with ih(1,2) show ?case
    by (simp add: eq upload_entries)
qed

lemma delete_all_foldl: "delete_all ds s = foldl (step h) s (map Delete ds)"
  by (induction ds arbitrary: s) simp_all

lemma delete_all_entries:
  "linked s \<Longrightarrow> distinct ds \<Longrightarrow> set ds \<subseteq> identity ` set (entries (index s)) \<Longrightarrow>
   length (entries (index (delete_all ds s))) = length (entries (index s)) - length ds \<and>
   set (entries (index (delete_all ds s))) \<subseteq> set (entries (index s))"
proof (induction ds arbitrary: s)
  case Nil
  then show ?case by simp
next
  case (Cons d ds)
  let ?s = "snd (delete_file d s)"
  from Cons.prems(3) obtain e where e: "e \<in> set (entries (index s))" "d = identity e"
    by auto
  have es: "entries (index ?s) = remove1 e (entries (index s))"
    by (simp add: e(2) delete_file_known [OF Cons.prems(1) e(1)])
  have did: "distinct (map identity (entries (index s)))"
    using Cons.prems(1) by (simp add: linked_def)
  have inv: "linked ?s"
    using Cons.prems(1) by (rule linked_delete_file)
  have sub: "set ds \<subseteq> identity ` set (entries (index ?s))"
  proof
    fix x assume x: "x \<in> set ds"
    with Cons.prems(3) obtain e' where e': "e' \<in> set (entries (index s))" "x = identity e'"
      by auto
    from x Cons.prems(2) have "x \<noteq> d" by auto
    with e(2) e'(2) have "e' \<noteq> e" by auto
    with e'(1) have "e' \<in> set (remove1 e (entries (index s)))" by simp
    with e'(2) show "x \<in> identity ` set (entries (index ?s))"
      unfolding es by (rule image_eqI)
  qed
  from Cons.prems(2) have "distinct ds" by simp
  from Cons.IH [OF inv this sub]
  have ih: "length (entries (index (delete_all ds ?s))) = length (entries (index ?s)) - length ds"
    "set (entries (index (delete_all ds ?s))) \<subseteq> set (entries (index ?s))"
    by blast+
  have len: "length (entries (index ?s)) = length (entries (index s)) - 1"
    unfolding es using e(1) by (simp add: length_remove1)
  have "set (entries (index ?s)) \<subseteq> set (entries (index s))"
    unfolding es by (rule set_remove1_subset)
  with ih len show ?case by auto
qed

lemma uploaded_deletes: "uploaded (map Delete ds) = {}"
  by (induction ds) simp_all

lemma uploaded_scenario: "uploaded (map (Upload c) rs @ map Delete ds) \<subseteq> {c}"
  by (induction rs) (simp_all add: uploaded_deletes)

text \<open>
  C4. Upload the same content \<open>N\<close> times to the empty engine (\<open>N\<close> is the length of
  \<open>rs\<close>, the identities handed out are \<open>ids\<close>) and then delete \<open>M\<close> distinct files
  among those uploaded (\<open>M\<close> is the length of \<open>ds\<close>). Then \<open>M\<close> is at most \<open>N\<close>; if
  \<open>N - M\<close> is 0 the Blob Store is empty, otherwise it holds exactly the Blob of that
  content, with reference count \<open>N - M\<close>; so the Blob is absent if and only if
  \<open>N - M\<close> is 0.
\<close>

theorem reference_counting:
  assumes up: "upload_all h c rs initial_engine = (ids, s)"
    and ds: "distinct ds" "set ds \<subseteq> set ids"
  shows "length ds \<le> length rs \<and>
         store (delete_all ds s) =
           (if length rs - length ds = 0 then []
            else [\<lparr>fingerprint = h c, byte_size = length c,
                   reference_count = length rs - length ds, stored = c\<rparr>]) \<and>
         (h c \<notin> fingerprint ` set (store (delete_all ds s))) =
           (length rs - length ds = 0)"
proof -
  let ?ops = "map (Upload c) rs @ map Delete ds"
  let ?t = "delete_all ds s"
  let ?n = "length rs - length ds"
  have s: "s = run h (map (Upload c) rs)"
    using upload_all_foldl [OF up] by (simp add: run_def)
  have t: "?t = run h ?ops"
    by (simp add: s run_def delete_all_foldl [of _ _ h])
  have inv_s: "linked s" unfolding s by (rule linked_run)
  have inv: "linked ?t" unfolding t by (rule linked_run)
  have "uploaded ?ops \<subseteq> {c}"
    by (rule uploaded_scenario)
  with consistent_foldl [OF linked_initial sized_initial, of ?ops "{c}" h]
  have sz: "sized h {c} ?t" by (simp add: t run_def)
  from upload_all_entries [OF up]
  have ids: "map identity (entries (index s)) = ids" "length ids = length rs"
    and one: "\<And>e. e \<in> set (entries (index s)) \<Longrightarrow> fingerprint_ref e = h c"
    by (auto simp: initial_engine_def)
  from ids have len_s: "length (entries (index s)) = length rs"
    by (metis length_map)
  from ids(1) have "set ids = identity ` set (entries (index s))"
    by (metis set_map)
  with ds(2) have sub: "set ds \<subseteq> identity ` set (entries (index s))" by simp
  from delete_all_entries [OF inv_s ds(1) sub]
  have len_t: "length (entries (index ?t)) = ?n"
    and sub_t: "set (entries (index ?t)) \<subseteq> set (entries (index s))"
    by (simp_all add: len_s)
  have le: "length ds \<le> length rs"
    using ds ids(2) by (metis card_mono distinct_card List.finite_set card_length le_trans)
  have all_c: "filter (\<lambda>e. fingerprint_ref e = h c) (entries (index ?t)) = entries (index ?t)"
    using one sub_t by (auto simp: filter_id_conv)
  have blob: "b = \<lparr>fingerprint = h c, byte_size = length c, reference_count = ?n, stored = c\<rparr>
      \<and> 0 < ?n" if b: "b \<in> set (store ?t)" for b
  proof -
    from sz b have "stored b = c" "fingerprint b = h c" "byte_size b = length c"
      by (auto simp: sized_def)
    moreover from inv b have "0 < reference_count b" "reference_count b =
        length (filter (\<lambda>e. fingerprint_ref e = fingerprint b) (entries (index ?t)))"
      by (auto simp: linked_def)
    ultimately have "reference_count b = ?n" "0 < ?n"
      by (simp_all add: all_c len_t)
    with \<open>stored b = c\<close> \<open>fingerprint b = h c\<close> \<open>byte_size b = length c\<close>
    show ?thesis by (cases b) simp
  qed
  have dfp: "distinct (map fingerprint (store ?t))"
    using inv by (simp add: linked_def)
  have st: "store ?t = (if ?n = 0 then []
      else [\<lparr>fingerprint = h c, byte_size = length c, reference_count = ?n, stored = c\<rparr>])"
  proof (cases "store ?t")
    case Nil
    have "?n = 0"
    proof (rule ccontr)
      assume "?n \<noteq> 0"
      with len_t obtain e where "e \<in> set (entries (index ?t))"
        by (metis length_greater_0_conv neq0_conv last_in_set)
      with inv have "fingerprint_ref e \<in> fingerprint ` set (store ?t)"
        by (simp add: linked_def)
      with Nil show False by simp
    qed
    with Nil show ?thesis by simp
  next
    case (Cons b bs)
    then have "b \<in> set (store ?t)" by simp
    from blob [OF this] have b: "b = \<lparr>fingerprint = h c, byte_size = length c,
        reference_count = ?n, stored = c\<rparr>" and pos: "0 < ?n" by simp_all
    have "bs = []"
    proof (cases bs)
      case Nil
      then show ?thesis .
    next
      case (Cons b' bs')
      with \<open>store ?t = b # bs\<close> have "b' \<in> set (store ?t)" by simp
      from blob [OF this] b have "b' = b" by simp
      with dfp \<open>store ?t = b # bs\<close> Cons show ?thesis by simp
    qed
    with Cons b pos show ?thesis by simp
  qed
  from st have "(h c \<notin> fingerprint ` set (store ?t)) = (?n = 0)"
    by simp
  with le st show ?thesis by blast
qed

theorem reference_counting_witness:
  "fst (upload_all length ''hello''
     [\<lparr>req_name = ''a.txt'', req_owner = ''ann'', req_timestamp = 1\<rparr>,
      \<lparr>req_name = ''b.txt'', req_owner = ''bob'', req_timestamp = 2\<rparr>,
      \<lparr>req_name = ''c.txt'', req_owner = ''cy'', req_timestamp = 3\<rparr>] initial_engine) = [0, 1, 2] \<and>
   distinct [2, 0 :: nat] \<and>
   set [2, 0] \<subseteq> set (fst (upload_all length ''hello''
     [\<lparr>req_name = ''a.txt'', req_owner = ''ann'', req_timestamp = 1\<rparr>,
      \<lparr>req_name = ''b.txt'', req_owner = ''bob'', req_timestamp = 2\<rparr>,
      \<lparr>req_name = ''c.txt'', req_owner = ''cy'', req_timestamp = 3\<rparr>] initial_engine)) \<and>
   store (delete_all [2, 0] (snd (upload_all length ''hello''
     [\<lparr>req_name = ''a.txt'', req_owner = ''ann'', req_timestamp = 1\<rparr>,
      \<lparr>req_name = ''b.txt'', req_owner = ''bob'', req_timestamp = 2\<rparr>,
      \<lparr>req_name = ''c.txt'', req_owner = ''cy'', req_timestamp = 3\<rparr>] initial_engine))) =
     [\<lparr>fingerprint = 5, byte_size = 5, reference_count = 1, stored = ''hello''\<rparr>]"
proof -
  let ?u = "upload_all length ''hello''
     [\<lparr>req_name = ''a.txt'', req_owner = ''ann'', req_timestamp = 1\<rparr>,
      \<lparr>req_name = ''b.txt'', req_owner = ''bob'', req_timestamp = 2\<rparr>,
      \<lparr>req_name = ''c.txt'', req_owner = ''cy'', req_timestamp = 3\<rparr>]
     (initial_engine :: nat engine)"
  have ids: "fst ?u = [0, 1, 2]"
    by (simp add: engine_eval)
  have up: "?u = (fst ?u, snd ?u)" by simp
  have d: "distinct [2, 0 :: nat]" by simp
  have sub: "set [2, 0] \<subseteq> set (fst ?u)" unfolding ids by simp
  have "store (delete_all [2, 0] (snd ?u)) =
      [\<lparr>fingerprint = 5, byte_size = 5, reference_count = 1, stored = ''hello''\<rparr>]"
    using reference_counting [OF up d sub] by simp
  with ids d sub show ?thesis by (intro conjI)
qed

end
